theory Spec2Isabelle
  imports Main "HOL-Library.Sublist"
begin

section \<open>The SQL gate of the HR assistant (groq\_trial2.py)\<close>

subsection \<open>Text\<close>

text \<open>
  A Python \<^verbatim>\<open>str\<close> is a sequence of Unicode code points. The model has the code points
  U+0000 to U+00FF (\<open>Latin c\<close> is the code point with the number of the character
  \<open>c\<close>), and two more: U+0130, the capital I with a dot above, is the one code point
  whose lower-case form is two code points, \<^verbatim>\<open>i\<close> and the combining dot U+0307.
  Over these code points \<^verbatim>\<open>str.lower\<close>, \<^verbatim>\<open>str.strip\<close>, the class \<^verbatim>\<open>\w\<close> and the
  assertion \<^verbatim>\<open>\b\<close> of the module \<^verbatim>\<open>re\<close> are the tables written out below, and
  \<^verbatim>\<open>lower\<close> stays within them. A text with any other code point is outside the model.
\<close>

datatype code_point = Latin char | Capital_I_dot | Combining_dot

type_synonym pystr = "code_point list"

text \<open>\<^verbatim>\<open>ord\<close>: the number of the code point.\<close>

fun code :: "code_point \<Rightarrow> nat" where
  "code (Latin c) = of_char c"
| "code Capital_I_dot = 304"
| "code Combining_dot = 775"

text \<open>A text of code points below U+0100, written as a string literal.\<close>

definition str :: "string \<Rightarrow> pystr" where
  "str s = map Latin s"

subsection \<open>Character classes\<close>

text \<open>The characters \<^verbatim>\<open>str.strip()\<close> removes: those for which \<^verbatim>\<open>str.isspace\<close> holds.\<close>

definition is_space :: "code_point \<Rightarrow> bool" where
  "is_space c \<longleftrightarrow>
     (let n = code c
      in (9 \<le> n \<and> n \<le> 13) \<or> (28 \<le> n \<and> n \<le> 32) \<or> n = 133 \<or> n = 160)"

text \<open>The characters below U+0100 that \<^verbatim>\<open>str.lower()\<close> changes: A-Z and the upper-case
  letters U+00C0 to U+00DE, the multiplication sign U+00D7 apart. Each moves up by 32.\<close>

definition is_upper :: "char \<Rightarrow> bool" where
  "is_upper c \<longleftrightarrow>
     (let n = of_char c :: nat
      in (65 \<le> n \<and> n \<le> 90) \<or> (192 \<le> n \<and> n \<le> 222 \<and> n \<noteq> 215))"

definition lower_char :: "char \<Rightarrow> char" where
  "lower_char c = (if is_upper c then char_of (of_char c + 32 :: nat) else c)"

fun lower_cp :: "code_point \<Rightarrow> pystr" where
  "lower_cp (Latin c) = [Latin (lower_char c)]"
| "lower_cp Capital_I_dot = [Latin CHR ''i'', Combining_dot]"
| "lower_cp Combining_dot = [Combining_dot]"

definition lower :: "pystr \<Rightarrow> pystr" where
  "lower s = concat (map lower_cp s)"

text \<open>The class \<^verbatim>\<open>\w\<close> of a \<^verbatim>\<open>str\<close> pattern: the alphanumeric characters and the
  underscore. U+0130 is a letter; the combining dot U+0307 is a mark, not alphanumeric.\<close>

definition is_word :: "code_point \<Rightarrow> bool" where
  "is_word c \<longleftrightarrow>
     (let n = code c
      in (48 \<le> n \<and> n \<le> 57) \<or> (65 \<le> n \<and> n \<le> 90) \<or> n = 95 \<or> (97 \<le> n \<and> n \<le> 122)
         \<or> n = 170 \<or> n = 178 \<or> n = 179 \<or> n = 181 \<or> n = 185 \<or> n = 186
         \<or> (188 \<le> n \<and> n \<le> 190) \<or> (192 \<le> n \<and> n \<le> 214) \<or> (216 \<le> n \<and> n \<le> 246)
         \<or> (248 \<le> n \<and> n \<le> 255) \<or> n = 304)"

subsection \<open>\<^verbatim>\<open>str.strip\<close>\<close>

definition lstrip :: "pystr \<Rightarrow> pystr" where
  "lstrip s = dropWhile is_space s"

definition rstrip :: "pystr \<Rightarrow> pystr" where
  "rstrip s = rev (dropWhile is_space (rev s))"

definition strip :: "pystr \<Rightarrow> pystr" where
  "strip s = rstrip (lstrip s)"

subsection \<open>\<^verbatim>\<open>sanitize_sql\<close>\<close>

text \<open>
  \<^verbatim>\<open>re.sub(r"```sql|```", "", sql, flags=re.IGNORECASE)\<close> scans the text from the left.
  At each position it tries the first alternative (three backticks and the letters
  s, q, l in either case), then the second (three backticks); the match is deleted and the
  scan goes on behind it. Where neither matches, the character is kept.
\<close>

definition backtick :: code_point where
  "backtick = Latin (CHR 0x60)"

definition fence :: pystr where
  "fence = [backtick, backtick, backtick]"

definition fence_sql_here :: "pystr \<Rightarrow> bool" where
  "fence_sql_here s \<longleftrightarrow> prefix fence s \<and> lower (take 3 (drop 3 s)) = str ''sql''"

function re_sub_fence :: "pystr \<Rightarrow> pystr" where
  "re_sub_fence [] = []"
| "re_sub_fence (c # cs) =
     (if fence_sql_here (c # cs) then re_sub_fence (drop 5 cs)
      else if prefix fence (c # cs) then re_sub_fence (drop 2 cs)
      else c # re_sub_fence cs)"
  by pat_completeness auto
termination
  by (relation "measure length") auto

text \<open>\<^verbatim>\<open>sql.replace("`", "")\<close>\<close>

definition remove_backticks :: "pystr \<Rightarrow> pystr" where
  "remove_backticks s = filter (\<lambda>c. c \<noteq> backtick) s"

definition sanitize_sql :: "pystr \<Rightarrow> pystr" where
  "sanitize_sql sql = strip (remove_backticks (re_sub_fence sql))"

subsection \<open>\<^verbatim>\<open>validate_sql\<close>\<close>

text \<open>
  Both failures of \<^verbatim>\<open>validate_sql\<close> are a \<^verbatim>\<open>ValueError\<close>; they differ in the message.
  The two kinds carry the names the specification gives them. \<open>DatabaseError\<close> is
  whatever the database driver raises.
\<close>

datatype error = ValueError string | DatabaseError

definition NotAReadQuery :: error where
  "NotAReadQuery = ValueError ''Only SELECT queries allowed''"

definition ForbiddenKeyword :: error where
  "ForbiddenKeyword = ValueError ''Unsafe SQL detected''"

definition forbidden_keywords :: "pystr list" where
  "forbidden_keywords =
     map str [''insert'', ''update'', ''delete'', ''drop'', ''alter'', ''truncate'', ''exec'',
      ''merge'', ''create'']"

text \<open>
  \<^verbatim>\<open>\b\<close> holds between two positions of which exactly one is a word character; the
  outside of the text counts as no word character. \<open>prev\<close> says whether the character
  before the position is a word character.
\<close>

definition word_boundary :: "bool \<Rightarrow> pystr \<Rightarrow> bool" where
  "word_boundary prev rest \<longleftrightarrow> prev \<noteq> (case rest of [] \<Rightarrow> False | c # _ \<Rightarrow> is_word c)"

text \<open>The pattern \<^verbatim>\<open>\b(insert|update|...|create)\b\<close> matches at this position.\<close>

definition forbidden_here :: "bool \<Rightarrow> pystr \<Rightarrow> bool" where
  "forbidden_here prev rest \<longleftrightarrow>
     word_boundary prev rest \<and>
     (\<exists>kw \<in> set forbidden_keywords.
        prefix kw rest \<and> word_boundary (is_word (last kw)) (drop (length kw) rest))"

text \<open>\<^verbatim>\<open>re.search\<close>: the pattern matches at some position of the text.\<close>

fun re_search_from :: "bool \<Rightarrow> pystr \<Rightarrow> bool" where
  "re_search_from prev [] = forbidden_here prev []"
| "re_search_from prev (c # cs) =
     (forbidden_here prev (c # cs) \<or> re_search_from (is_word c) cs)"

definition re_search_forbidden :: "pystr \<Rightarrow> bool" where
  "re_search_forbidden s = re_search_from False s"

definition validate_sql :: "pystr \<Rightarrow> error + unit" where
  "validate_sql sql =
     (let sql_lower = strip (lower sql)
      in if \<not> prefix (str ''select'') sql_lower then Inl NotAReadQuery
         else if re_search_forbidden sql_lower then Inl ForbiddenKeyword
         else Inr ())"

subsection \<open>\<^verbatim>\<open>generate_sql\<close> and \<^verbatim>\<open>execute_sql\<close>\<close>

text \<open>
  \<^verbatim>\<open>generate_sql\<close> builds a prompt, asks the completion service and passes the answer
  through the gate. The prompt and the service are outside the model: \<open>raw_sql\<close> is
  the text \<^verbatim>\<open>groq_call\<close> returned.
\<close>

definition generate_sql :: "pystr \<Rightarrow> error + pystr" where
  "generate_sql raw_sql =
     (let sql = sanitize_sql raw_sql
      in case validate_sql sql of Inl e \<Rightarrow> Inl e | Inr _ \<Rightarrow> Inr sql)"

text \<open>
  The database is a parameter: whether \<^verbatim>\<open>get_connection\<close> succeeds, and what a
  statement gives (\<open>None\<close> when the driver raises on it, otherwise the column names and
  the rows). What \<^verbatim>\<open>execute_sql\<close> does to the database is a log of events; an exception
  leaves the function before \<^verbatim>\<open>conn.close()\<close>.
\<close>

datatype db_event = Connect | Execute pystr | FetchAll | Close

record 'v database =
  reachable :: bool
  run_query :: "pystr \<Rightarrow> (string list \<times> 'v list list) option"

text \<open>\<^verbatim>\<open>dict(zip(cols, row))\<close>: of two equal column names the later one wins.\<close>

definition row_dict :: "string list \<Rightarrow> 'v list \<Rightarrow> (string \<rightharpoonup> 'v)" where
  "row_dict cols row = map_of (rev (zip cols row))"

definition execute_sql ::
  "'v database \<Rightarrow> pystr \<Rightarrow> db_event list \<Rightarrow> (error + (string \<rightharpoonup> 'v) list) \<times> db_event list" where
  "execute_sql db sql log =
     (case validate_sql sql of
        Inl e \<Rightarrow> (Inl e, log)
      | Inr _ \<Rightarrow>
          if \<not> reachable db then (Inl DatabaseError, log @ [Connect])
          else (case run_query db sql of
                  None \<Rightarrow> (Inl DatabaseError, log @ [Connect, Execute sql])
                | Some (cols, rows) \<Rightarrow>
                    (Inr (map (row_dict cols) rows),
                     log @ [Connect, Execute sql, FetchAll, Close])))"

subsection \<open>The wording of the specification\<close>

text \<open>
  \<open>w\<close> stands in the text as a word of its own: neither the character before it nor
  the character behind it is a word character.
\<close>

definition stands_as_word :: "pystr \<Rightarrow> pystr \<Rightarrow> bool" where
  "stands_as_word w s \<longleftrightarrow>
     (\<exists>pre post. s = pre @ w @ post \<and>
        (pre = [] \<or> \<not> is_word (last pre)) \<and> (post = [] \<or> \<not> is_word (hd post)))"

text \<open>The keyword, in some casing, stands in the text as a word of its own.\<close>

definition occurs_as_word :: "pystr \<Rightarrow> pystr \<Rightarrow> bool" where
  "occurs_as_word kw s \<longleftrightarrow> (\<exists>w. lower w = kw \<and> stands_as_word w s)"

definition contains_forbidden_word :: "pystr \<Rightarrow> bool" where
  "contains_forbidden_word s \<longleftrightarrow> (\<exists>kw \<in> set forbidden_keywords. occurs_as_word kw s)"

text \<open>
  Wherever a keyword of the denylist occurs in the text, in any casing, it is part of a
  longer identifier: a word character stands directly before it or directly behind it.
\<close>

definition only_inside_identifiers :: "pystr \<Rightarrow> bool" where
  "only_inside_identifiers s \<longleftrightarrow>
     (\<forall>kw \<in> set forbidden_keywords. \<forall>pre w post.
        s = pre @ w @ post \<and> lower w = kw \<longrightarrow>
        (pre \<noteq> [] \<and> is_word (last pre)) \<or> (post \<noteq> [] \<and> is_word (hd post)))"

text \<open>
  The same, decided by a scan of the text: at a position behind no word character some
  keyword stands in some casing, and no word character follows it.
\<close>

definition word_here :: "bool \<Rightarrow> pystr \<Rightarrow> bool" where
  "word_here prev rest \<longleftrightarrow>
     \<not> prev \<and>
     (\<exists>kw \<in> set forbidden_keywords.
        length kw \<le> length rest \<and> lower (take (length kw) rest) = kw \<and>
        (case drop (length kw) rest of [] \<Rightarrow> True | c # _ \<Rightarrow> \<not> is_word c))"

fun word_scan :: "bool \<Rightarrow> pystr \<Rightarrow> bool" where
  "word_scan prev [] = word_here prev []"
| "word_scan prev (c # cs) = (word_here prev (c # cs) \<or> word_scan (is_word c) cs)"

section \<open>Auxiliary facts\<close>

subsection \<open>Errors and character classes\<close>

lemma error_kinds_differ [simp]:
  "NotAReadQuery \<noteq> ForbiddenKeyword" "ForbiddenKeyword \<noteq> NotAReadQuery"
  by (simp_all add: NotAReadQuery_def ForbiddenKeyword_def)

lemma is_word_lower_char: "is_word (Latin (lower_char c)) = is_word (Latin c)"
proof -
  have "(of_char c :: nat) < 256" by simp
  then show ?thesis
    unfolding is_word_def lower_char_def is_upper_def Let_def
    by auto
qed

lemma is_space_lower_char: "is_space (Latin (lower_char c)) = is_space (Latin c)"
proof -
  have "(of_char c :: nat) < 256" by simp
  then show ?thesis
    unfolding is_space_def lower_char_def is_upper_def Let_def
    by auto
qed

lemma is_space_not_word: "is_space c \<Longrightarrow> \<not> is_word c"
  unfolding is_space_def is_word_def Let_def by auto

lemma lower_cp_not_Nil [simp]: "lower_cp c \<noteq> []"
  by (cases c) simp_all

lemma hd_lower_cp_word: "is_word (hd (lower_cp c)) = is_word c"
  by (cases c) (simp_all add: is_word_lower_char, simp_all add: is_word_def)

lemma hd_lower_cp_space: "is_space (hd (lower_cp c)) = is_space c"
  by (cases c) (simp_all add: is_space_lower_char, simp_all add: is_space_def)

lemma last_lower_cp_not_word: "\<not> is_word c \<Longrightarrow> \<not> is_word (last (lower_cp c))"
  by (cases c) (simp_all add: is_word_lower_char, simp_all add: is_word_def)

lemma last_lower_cp_word: "c \<noteq> Capital_I_dot \<Longrightarrow> is_word (last (lower_cp c)) = is_word c"
  by (cases c) (simp_all add: is_word_lower_char)

lemma lower_Nil [simp]: "lower [] = []"
  by (simp add: lower_def)

lemma lower_Cons: "lower (c # cs) = lower_cp c @ lower cs"
  by (simp add: lower_def)

lemma lower_append: "lower (a @ b) = lower a @ lower b"
  by (simp add: lower_def)

lemma lower_eq_Nil [simp]: "lower s = [] \<longleftrightarrow> s = []"
  by (cases s) (simp_all add: lower_Cons)

lemma hd_lower: "s \<noteq> [] \<Longrightarrow> hd (lower s) = hd (lower_cp (hd s))"
  by (cases s) (simp_all add: lower_Cons)

lemma last_lower: "s \<noteq> [] \<Longrightarrow> last (lower s) = last (lower_cp (last s))"
proof (induction s rule: rev_induct)
  case Nil
  then show ?case by simp
next
  case (snoc c cs)
  have "lower (cs @ [c]) = lower cs @ lower_cp c"
    by (simp add: lower_append lower_Cons)
  then show ?case by simp
qed

lemma length_lower_no_dot:
  "Combining_dot \<notin> set (lower w) \<Longrightarrow> length (lower w) = length w \<and> Capital_I_dot \<notin> set w"
proof (induction w)
  case Nil
  then show ?case by simp
next
  case (Cons c w)
  then show ?case by (cases c) (auto simp: lower_Cons)
qed

lemma forbidden_keywords_shape:
  "kw \<in> set forbidden_keywords \<Longrightarrow>
     kw \<noteq> [] \<and> is_word (hd kw) \<and> is_word (last kw) \<and> \<not> is_space (hd kw) \<and> \<not> is_space (last kw)"
  unfolding forbidden_keywords_def
  by (auto simp: str_def is_word_def is_space_def)

lemma forbidden_keywords_lower:
  "kw \<in> set forbidden_keywords \<Longrightarrow> lower kw = kw \<and> Combining_dot \<notin> set kw"
  unfolding forbidden_keywords_def
  by (auto simp: str_def lower_def lower_char_def is_upper_def)

lemma lower_select: "lower (str ''select'') = str ''select''"
  by (simp add: str_def lower_def lower_char_def is_upper_def)

lemma select_shape:
  "str ''select'' \<noteq> [] \<and> \<not> is_space (hd (str ''select'')) \<and> \<not> is_space (last (str ''select''))"
  by (simp add: str_def is_space_def)

subsection \<open>Stripping\<close>

lemma rstrip_append_keep:
  assumes "kw \<noteq> []" and "\<not> is_space (last kw)"
  shows "rstrip (kw @ r) = kw @ rstrip r"
proof -
  have "\<not> is_space (hd (rev kw))" using assms by (simp add: hd_rev)
  then have "dropWhile is_space (rev kw) = rev kw"
    using assms(1) by (cases "rev kw") auto
  then show ?thesis
    by (simp add: rstrip_def dropWhile_append)
qed

lemma lstrip_append_keep:
  assumes "kw \<noteq> []" and "\<not> is_space (hd kw)"
  shows "lstrip (pre @ kw @ post) = lstrip pre @ kw @ post"
proof -
  have "dropWhile is_space (kw @ post) = kw @ post"
    using assms by (cases kw) auto
  then show ?thesis
    by (simp add: lstrip_def dropWhile_append)
qed

lemma lstrip_decomp: "s = takeWhile is_space s @ lstrip s"
  by (simp add: lstrip_def)

lemma rstrip_decomp: "s = rstrip s @ rev (takeWhile is_space (rev s))"
proof -
  have "rev (takeWhile is_space (rev s) @ dropWhile is_space (rev s)) = s"
    by simp
  then show ?thesis unfolding rstrip_def rev_append by (rule sym)
qed

lemma lstrip_no_leading_space: "lstrip s = [] \<or> \<not> is_space (hd (lstrip s))"
  unfolding lstrip_def by (metis hd_dropWhile)

lemma rstrip_no_trailing_space: "rstrip s = [] \<or> \<not> is_space (last (rstrip s))"
proof (cases "dropWhile is_space (rev s) = []")
  case True
  then show ?thesis by (simp add: rstrip_def)
next
  case False
  then have "\<not> is_space (hd (dropWhile is_space (rev s)))" by (rule hd_dropWhile)
  with False show ?thesis by (simp add: rstrip_def last_rev)
qed

lemma lstrip_id: "s = [] \<or> \<not> is_space (hd s) \<Longrightarrow> lstrip s = s"
  by (cases s) (auto simp: lstrip_def)

lemma rstrip_id: "s = [] \<or> \<not> is_space (last s) \<Longrightarrow> rstrip s = s"
proof -
  assume "s = [] \<or> \<not> is_space (last s)"
  then have "rev s = [] \<or> \<not> is_space (hd (rev s))" by (auto simp: hd_rev)
  then have "dropWhile is_space (rev s) = rev s" by (cases "rev s") auto
  then show ?thesis by (simp add: rstrip_def)
qed

lemma hd_rstrip: "rstrip s \<noteq> [] \<Longrightarrow> hd (rstrip s) = hd s"
  by (metis rstrip_decomp hd_append2)

lemma strip_no_space_ends:
  "strip s = [] \<or> (\<not> is_space (hd (strip s)) \<and> \<not> is_space (last (strip s)))"
proof (cases "strip s = []")
  case True then show ?thesis by simp
next
  case False
  then have ne: "lstrip s \<noteq> []" by (auto simp: strip_def rstrip_def)
  have "hd (strip s) = hd (lstrip s)" using False by (simp add: strip_def hd_rstrip)
  moreover have "\<not> is_space (hd (lstrip s))" using ne lstrip_no_leading_space by blast
  moreover have "\<not> is_space (last (strip s))"
    using False rstrip_no_trailing_space [of "lstrip s"] by (simp add: strip_def)
  ultimately show ?thesis by simp
qed

lemma strip_id: "s = [] \<or> (\<not> is_space (hd s) \<and> \<not> is_space (last s)) \<Longrightarrow> strip s = s"
  by (auto simp: strip_def lstrip_id rstrip_id)

lemma strip_idem: "strip (strip s) = strip s"
  by (rule strip_id) (rule strip_no_space_ends)

lemma set_strip: "set (strip s) \<subseteq> set s"
proof -
  have "set (rstrip (lstrip s)) \<subseteq> set (lstrip s)"
    unfolding rstrip_def using set_dropWhileD by fastforce
  moreover have "set (lstrip s) \<subseteq> set s"
    unfolding lstrip_def using set_dropWhileD by fastforce
  ultimately show ?thesis by (simp add: strip_def)
qed

lemma prefix_strip_iff:
  assumes "kw \<noteq> []" and "\<not> is_space (last kw)"
  shows "prefix kw (strip s) \<longleftrightarrow> prefix kw (lstrip s)"
proof
  assume "prefix kw (strip s)"
  then have "prefix kw (rstrip (lstrip s) @ rev (takeWhile is_space (rev (lstrip s))))"
    unfolding strip_def by (rule prefix_prefix)
  then show "prefix kw (lstrip s)" using rstrip_decomp [of "lstrip s"] by simp
next
  assume "prefix kw (lstrip s)"
  then obtain r where "lstrip s = kw @ r" by (auto simp: prefix_def)
  then have "strip s = kw @ rstrip r"
    using assms by (simp add: strip_def rstrip_append_keep)
  then show "prefix kw (strip s)" by simp
qed


subsection \<open>Sanitizing\<close>

lemma no_backtick_re_sub_fence: "backtick \<notin> set s \<Longrightarrow> re_sub_fence s = s"
proof (induction s rule: re_sub_fence.induct)
  case 1
  then show ?case by simp
next
  case (2 c cs)
  then have "c \<noteq> backtick" by auto
  then have np: "\<not> prefix fence (c # cs)" by (simp add: fence_def)
  then have "\<not> fence_sql_here (c # cs)" by (simp add: fence_sql_here_def)
  with np 2 show ?case by simp
qed

lemma no_backtick_remove: "backtick \<notin> set (remove_backticks s)"
  by (simp add: remove_backticks_def)

lemma no_backtick_sanitize: "backtick \<notin> set (sanitize_sql s)"
  using set_strip [of "remove_backticks (re_sub_fence s)"] no_backtick_remove
  by (auto simp: sanitize_sql_def)

lemma remove_backticks_id: "backtick \<notin> set s \<Longrightarrow> remove_backticks s = s"
  by (auto simp: remove_backticks_def filter_id_conv)



lemma sanitize_idem: "sanitize_sql (sanitize_sql s) = sanitize_sql s"
proof -
  have nb: "backtick \<notin> set (sanitize_sql s)" by (rule no_backtick_sanitize)
  have "sanitize_sql (sanitize_sql s) = strip (sanitize_sql s)"
    using nb by (simp add: sanitize_sql_def [of "sanitize_sql s"] no_backtick_re_sub_fence remove_backticks_id)
  also have "\<dots> = sanitize_sql s" by (simp add: sanitize_sql_def strip_idem)
  finally show ?thesis .
qed









subsection \<open>Words in any casing, and in the stripped text\<close>

lemma occurs_as_word_lower: "occurs_as_word kw s \<Longrightarrow> stands_as_word kw (lower s)"
proof -
  assume "occurs_as_word kw s"
  then obtain w pre post where w: "lower w = kw" and s: "s = pre @ w @ post"
    and b: "pre = [] \<or> \<not> is_word (last pre)" and a: "post = [] \<or> \<not> is_word (hd post)"
    by (auto simp: occurs_as_word_def stands_as_word_def)
  have "lower s = lower pre @ kw @ lower post" using s w by (simp add: lower_append)
  moreover have "lower pre = [] \<or> \<not> is_word (last (lower pre))"
    using b by (auto simp: last_lower last_lower_cp_not_word)
  moreover have "lower post = [] \<or> \<not> is_word (hd (lower post))"
    using a by (auto simp: hd_lower hd_lower_cp_word)
  ultimately show "stands_as_word kw (lower s)"
    unfolding stands_as_word_def by blast
qed

lemma lower_eq_append:
  "lower s = p @ q \<Longrightarrow> Capital_I_dot \<notin> set s \<Longrightarrow>
     \<exists>a b. s = a @ b \<and> lower a = p \<and> lower b = q"
proof (induction s arbitrary: p)
  case Nil
  then show ?case by simp
next
  case (Cons c cs)
  from Cons.prems(2) have c: "c \<noteq> Capital_I_dot" and cs: "Capital_I_dot \<notin> set cs" by auto
  from c obtain d where d: "lower_cp c = [d]" by (cases c) auto
  show ?case
  proof (cases p)
    case Nil
    with Cons.prems(1) have "c # cs = [] @ (c # cs) \<and> lower [] = p \<and> lower (c # cs) = q"
      by simp
    then show ?thesis by blast
  next
    case (Cons e p')
    with Cons.prems(1) d have "e = d" and "lower cs = p' @ q" by (auto simp: lower_Cons)
    then obtain a b where "cs = a @ b" "lower a = p'" "lower b = q"
      using Cons.IH cs by blast
    then have "c # cs = (c # a) @ b \<and> lower (c # a) = p \<and> lower b = q"
      using d Cons \<open>e = d\<close> by (simp add: lower_Cons)
    then show ?thesis by blast
  qed
qed

lemma stands_as_word_lower_back:
  assumes "stands_as_word kw (lower s)" and "Capital_I_dot \<notin> set s"
  shows "occurs_as_word kw s"
proof -
  from assms(1) obtain p q where e: "lower s = p @ kw @ q"
    and b: "p = [] \<or> \<not> is_word (last p)" and a: "q = [] \<or> \<not> is_word (hd q)"
    by (auto simp: stands_as_word_def)
  from e assms(2) obtain pre r where s1: "s = pre @ r" and p: "lower pre = p"
    and r: "lower r = kw @ q"
    using lower_eq_append by blast
  from s1 assms(2) have "Capital_I_dot \<notin> set r" by simp
  with r obtain w post where s2: "r = w @ post" and w: "lower w = kw" and q: "lower post = q"
    using lower_eq_append by blast
  have "pre = [] \<or> \<not> is_word (last pre)"
  proof (cases "pre = []")
    case False
    then have "last pre \<in> set s" using s1 by simp
    then have "last pre \<noteq> Capital_I_dot" using assms(2) by auto
    then have "is_word (last (lower pre)) = is_word (last pre)"
      using False by (simp add: last_lower last_lower_cp_word)
    then show ?thesis using b p False by auto
  qed simp
  moreover have "post = [] \<or> \<not> is_word (hd post)"
    using a q by (auto simp: hd_lower hd_lower_cp_word)
  ultimately have "stands_as_word w s"
    unfolding stands_as_word_def using s1 s2 by blast
  then show ?thesis
    unfolding occurs_as_word_def using w by blast
qed

lemma stands_as_word_lstrip:
  assumes "kw \<noteq> []" and "\<not> is_space (hd kw)"
  shows "stands_as_word kw (lstrip t) \<longleftrightarrow> stands_as_word kw t"
proof
  assume "stands_as_word kw (lstrip t)"
  then obtain pre post where e: "lstrip t = pre @ kw @ post"
    and b: "pre = [] \<or> \<not> is_word (last pre)" and a: "post = [] \<or> \<not> is_word (hd post)"
    by (auto simp: stands_as_word_def)
  let ?ws = "takeWhile is_space t"
  have t: "t = (?ws @ pre) @ kw @ post" using e lstrip_decomp [of t] by simp
  have "?ws @ pre = [] \<or> \<not> is_word (last (?ws @ pre))"
  proof (cases "pre = []")
    case False
    then show ?thesis using b by simp
  next
    case True
    show ?thesis
    proof (cases "?ws = []")
      case True
      with \<open>pre = []\<close> show ?thesis by simp
    next
      case False
      then have "last ?ws \<in> set ?ws" by (rule last_in_set)
      then have "is_space (last ?ws)" by (rule set_takeWhileD[THEN conjunct2])
      then show ?thesis using \<open>pre = []\<close> by (simp add: is_space_not_word)
    qed
  qed
  with t a show "stands_as_word kw t" unfolding stands_as_word_def by blast
next
  assume "stands_as_word kw t"
  then obtain pre post where e: "t = pre @ kw @ post"
    and b: "pre = [] \<or> \<not> is_word (last pre)" and a: "post = [] \<or> \<not> is_word (hd post)"
    by (auto simp: stands_as_word_def)
  have l: "lstrip t = lstrip pre @ kw @ post" using e assms by (simp add: lstrip_append_keep)
  have "lstrip pre = [] \<or> \<not> is_word (last (lstrip pre))"
  proof (cases "lstrip pre = []")
    case True then show ?thesis by simp
  next
    case False
    then have "last (lstrip pre) = last pre"
      by (metis lstrip_decomp last_appendR)
    moreover have "pre \<noteq> []" using False by (auto simp: lstrip_def)
    ultimately show ?thesis using b by simp
  qed
  with l a show "stands_as_word kw (lstrip t)" unfolding stands_as_word_def by blast
qed

lemma stands_as_word_rev: "stands_as_word (rev w) (rev s) \<longleftrightarrow> stands_as_word w s"
proof -
  have dir: "stands_as_word w s \<Longrightarrow> stands_as_word (rev w) (rev s)" for w s
  proof -
    assume "stands_as_word w s"
    then obtain pre post where e: "s = pre @ w @ post"
      and b: "pre = [] \<or> \<not> is_word (last pre)" and a: "post = [] \<or> \<not> is_word (hd post)"
      by (auto simp: stands_as_word_def)
    have "rev s = rev post @ rev w @ rev pre" using e by simp
    moreover have "rev post = [] \<or> \<not> is_word (last (rev post))"
      using a by (auto simp: last_rev)
    moreover have "rev pre = [] \<or> \<not> is_word (hd (rev pre))"
      using b by (auto simp: hd_rev)
    ultimately show ?thesis unfolding stands_as_word_def by blast
  qed
  show ?thesis using dir [of w s] dir [of "rev w" "rev s"] by auto
qed

lemma stands_as_word_rstrip:
  assumes "kw \<noteq> []" and "\<not> is_space (last kw)"
  shows "stands_as_word kw (rstrip t) \<longleftrightarrow> stands_as_word kw t"
proof -
  have "stands_as_word kw (rstrip t) \<longleftrightarrow> stands_as_word (rev kw) (lstrip (rev t))"
    using stands_as_word_rev [of kw "rstrip t"] by (simp add: rstrip_def lstrip_def)
  also have "\<dots> \<longleftrightarrow> stands_as_word (rev kw) (rev t)"
    using assms by (intro stands_as_word_lstrip) (simp_all add: hd_rev)
  also have "\<dots> \<longleftrightarrow> stands_as_word kw t" by (rule stands_as_word_rev)
  finally show ?thesis .
qed

lemma stands_as_word_strip:
  assumes "kw \<noteq> []" and "\<not> is_space (hd kw)" and "\<not> is_space (last kw)"
  shows "stands_as_word kw (strip t) \<longleftrightarrow> stands_as_word kw t"
  using assms by (simp add: strip_def stands_as_word_rstrip stands_as_word_lstrip)

subsection \<open>Scanning a text for a word\<close>

text \<open>
  A scan that tries every position finds what stands somewhere in the text: \<open>M\<close> says
  what may stand there, \<open>B\<close> what may follow it.
\<close>

lemma scan_finds:
  fixes f :: "bool \<Rightarrow> pystr \<Rightarrow> bool"
  assumes f_Nil: "\<And>p. f p [] = H p []"
    and f_Cons: "\<And>p c cs. f p (c # cs) = (H p (c # cs) \<or> f (is_word c) cs)"
    and H: "\<And>p rest. H p rest \<longleftrightarrow> \<not> p \<and> (\<exists>w post. rest = w @ post \<and> M w \<and> B post)"
    and M: "\<And>w. M w \<Longrightarrow> w \<noteq> []"
  shows "f prev t \<longleftrightarrow>
     (\<exists>pre w post. t = pre @ w @ post \<and> M w \<and>
        \<not> (if pre = [] then prev else is_word (last pre)) \<and> B post)"
proof (induction t arbitrary: prev)
  case Nil
  show ?case using M by (auto simp: f_Nil H)
next
  case (Cons c cs)
  show ?case (is "?L \<longleftrightarrow> ?R")
  proof
    assume ?L
    then consider "H prev (c # cs)" | "f (is_word c) cs" by (auto simp: f_Cons)
    then show ?R
    proof cases
      case 1
      then obtain w post where "c # cs = [] @ w @ post" "M w" "\<not> prev" "B post"
        by (auto simp: H)
      then show ?thesis by (intro exI[of _ "[]"] exI[of _ w] exI[of _ post]) auto
    next
      case 2
      then obtain pre w post where e: "cs = pre @ w @ post" and m: "M w"
        and b: "\<not> (if pre = [] then is_word c else is_word (last pre))" and a: "B post"
        using Cons.IH [of "is_word c"] by auto
      have "c # cs = (c # pre) @ w @ post" using e by simp
      moreover have "\<not> (if c # pre = [] then prev else is_word (last (c # pre)))"
        using b by auto
      ultimately show ?thesis using m a by blast
    qed
  next
    assume ?R
    then obtain pre w post where e: "c # cs = pre @ w @ post" and m: "M w"
      and b: "\<not> (if pre = [] then prev else is_word (last pre))" and a: "B post"
      by auto
    show ?L
    proof (cases pre)
      case Nil
      then have "H prev (c # cs)" using e m b a unfolding H by auto
      then show ?thesis by (simp add: f_Cons)
    next
      case (Cons d pre')
      then have "cs = pre' @ w @ post" and "d = c" using e by auto
      moreover have "\<not> (if pre' = [] then is_word c else is_word (last pre'))"
        using b Cons \<open>d = c\<close> by (auto split: if_splits)
      ultimately have "f (is_word c) cs"
        using Cons.IH [of "is_word c"] m a by blast
      then show ?thesis by (simp add: f_Cons)
    qed
  qed
qed

lemma not_at_start:
  "(\<not> (if pre = [] then False else is_word (last pre))) = (pre = [] \<or> \<not> is_word (last pre))"
  by simp

subsection \<open>What the search for the denylist pattern finds\<close>

lemma forbidden_here_iff:
  "forbidden_here prev rest \<longleftrightarrow>
     \<not> prev \<and> (\<exists>kw \<in> set forbidden_keywords. \<exists>post. rest = kw @ post \<and>
                 (post = [] \<or> \<not> is_word (hd post)))"
proof -
  have wb: "word_boundary prev (kw @ post) \<and> word_boundary (is_word (last kw)) post
        \<longleftrightarrow> \<not> prev \<and> (post = [] \<or> \<not> is_word (hd post))"
    if "kw \<in> set forbidden_keywords" for kw post
  proof -
    from that have "kw \<noteq> []" "is_word (hd kw)" "is_word (last kw)"
      using forbidden_keywords_shape by blast+
    then show ?thesis
      by (cases kw; cases post) (auto simp: word_boundary_def)
  qed
  show ?thesis
  proof
    assume "forbidden_here prev rest"
    then obtain kw where k: "kw \<in> set forbidden_keywords" and p: "prefix kw rest"
      and b1: "word_boundary prev rest"
      and b2: "word_boundary (is_word (last kw)) (drop (length kw) rest)"
      by (auto simp: forbidden_here_def)
    from p obtain post where r: "rest = kw @ post" by (auto simp: prefix_def)
    then have "word_boundary prev (kw @ post) \<and> word_boundary (is_word (last kw)) post"
      using b1 b2 by simp
    then have "\<not> prev \<and> (post = [] \<or> \<not> is_word (hd post))" using wb [OF k] by simp
    then show "\<not> prev \<and> (\<exists>kw \<in> set forbidden_keywords. \<exists>post. rest = kw @ post \<and>
                 (post = [] \<or> \<not> is_word (hd post)))"
      using k r by blast
  next
    assume "\<not> prev \<and> (\<exists>kw \<in> set forbidden_keywords. \<exists>post. rest = kw @ post \<and>
                 (post = [] \<or> \<not> is_word (hd post)))"
    then obtain kw post where k: "kw \<in> set forbidden_keywords" and r: "rest = kw @ post"
      and c: "\<not> prev \<and> (post = [] \<or> \<not> is_word (hd post))"
      by blast
    then have "word_boundary prev (kw @ post) \<and> word_boundary (is_word (last kw)) post"
      using wb [OF k] by simp
    then have "word_boundary prev rest \<and> prefix kw rest \<and>
               word_boundary (is_word (last kw)) (drop (length kw) rest)"
      using r by simp
    then show "forbidden_here prev rest"
      unfolding forbidden_here_def using k by blast
  qed
qed

lemma re_search_forbidden_iff:
  "re_search_forbidden t \<longleftrightarrow> (\<exists>kw \<in> set forbidden_keywords. stands_as_word kw t)"
proof -
  have "re_search_from prev t \<longleftrightarrow>
     (\<exists>pre w post. t = pre @ w @ post \<and> w \<in> set forbidden_keywords \<and>
        \<not> (if pre = [] then prev else is_word (last pre)) \<and>
        (post = [] \<or> \<not> is_word (hd post)))" for prev
  proof (rule scan_finds [where H = forbidden_here])
    show "forbidden_here p rest \<longleftrightarrow>
        \<not> p \<and> (\<exists>w post. rest = w @ post \<and> w \<in> set forbidden_keywords \<and>
                 (post = [] \<or> \<not> is_word (hd post)))" for p rest
      unfolding forbidden_here_iff by blast
    show "w \<noteq> []" if "w \<in> set forbidden_keywords" for w
      using that forbidden_keywords_shape by blast
  qed simp_all
  from this [of False] have "re_search_forbidden t \<longleftrightarrow>
     (\<exists>pre w post. t = pre @ w @ post \<and> w \<in> set forbidden_keywords \<and>
        (pre = [] \<or> \<not> is_word (last pre)) \<and> (post = [] \<or> \<not> is_word (hd post)))"
    unfolding re_search_forbidden_def not_at_start .
  then show ?thesis
    unfolding stands_as_word_def by blast
qed

lemma search_finds_words_of_lower:
  "re_search_forbidden (strip (lower s)) \<longleftrightarrow>
     (\<exists>kw \<in> set forbidden_keywords. stands_as_word kw (lower s))"
proof -
  have "stands_as_word kw (strip (lower s)) \<longleftrightarrow> stands_as_word kw (lower s)"
    if "kw \<in> set forbidden_keywords" for kw
    using forbidden_keywords_shape [OF that] by (simp add: stands_as_word_strip)
  then show ?thesis
    unfolding re_search_forbidden_iff by blast
qed

lemma search_finds_forbidden_words:
  "contains_forbidden_word s \<Longrightarrow> re_search_forbidden (strip (lower s))"
  unfolding search_finds_words_of_lower contains_forbidden_word_def
  using occurs_as_word_lower by blast

lemma search_finds_only_forbidden_words:
  "re_search_forbidden (strip (lower s)) \<Longrightarrow> Capital_I_dot \<notin> set s \<Longrightarrow>
     contains_forbidden_word s"
  unfolding search_finds_words_of_lower contains_forbidden_word_def
  using stands_as_word_lower_back by blast

subsection \<open>The scan for a word in any casing\<close>

lemma word_here_iff:
  "word_here prev rest \<longleftrightarrow>
     \<not> prev \<and> (\<exists>w post. rest = w @ post \<and> lower w \<in> set forbidden_keywords \<and>
                 (post = [] \<or> \<not> is_word (hd post)))"
proof
  assume "word_here prev rest"
  then obtain kw where k: "kw \<in> set forbidden_keywords" and np: "\<not> prev"
    and l: "lower (take (length kw) rest) = kw"
    and a: "case drop (length kw) rest of [] \<Rightarrow> True | c # _ \<Rightarrow> \<not> is_word c"
    by (auto simp: word_here_def)
  let ?w = "take (length kw) rest" and ?post = "drop (length kw) rest"
  have "rest = ?w @ ?post" by simp
  moreover have "lower ?w \<in> set forbidden_keywords" using k l by simp
  moreover have "?post = [] \<or> \<not> is_word (hd ?post)"
    using a by (cases ?post) auto
  ultimately show "\<not> prev \<and> (\<exists>w post. rest = w @ post \<and> lower w \<in> set forbidden_keywords \<and>
                 (post = [] \<or> \<not> is_word (hd post)))"
    using np by blast
next
  assume "\<not> prev \<and> (\<exists>w post. rest = w @ post \<and> lower w \<in> set forbidden_keywords \<and>
                 (post = [] \<or> \<not> is_word (hd post)))"
  then obtain w post where np: "\<not> prev" and r: "rest = w @ post"
    and k: "lower w \<in> set forbidden_keywords" and a: "post = [] \<or> \<not> is_word (hd post)"
    by blast
  have "Combining_dot \<notin> set (lower w)" using k forbidden_keywords_lower by blast
  then have len: "length (lower w) = length w" using length_lower_no_dot by blast
  have "length (lower w) \<le> length rest" using len r by simp
  moreover have "lower (take (length (lower w)) rest) = lower w" using len r by simp
  moreover have "case drop (length (lower w)) rest of [] \<Rightarrow> True | c # _ \<Rightarrow> \<not> is_word c"
    using len r a by (cases post) auto
  ultimately show "word_here prev rest"
    unfolding word_here_def using np k by blast
qed

lemma word_scan_iff: "word_scan False s \<longleftrightarrow> contains_forbidden_word s"
proof -
  have "word_scan prev t \<longleftrightarrow>
     (\<exists>pre w post. t = pre @ w @ post \<and> lower w \<in> set forbidden_keywords \<and>
        \<not> (if pre = [] then prev else is_word (last pre)) \<and>
        (post = [] \<or> \<not> is_word (hd post)))" for prev t
  proof (rule scan_finds [where H = word_here])
    show "word_here p rest \<longleftrightarrow>
        \<not> p \<and> (\<exists>w post. rest = w @ post \<and> lower w \<in> set forbidden_keywords \<and>
                 (post = [] \<or> \<not> is_word (hd post)))" for p rest
      by (rule word_here_iff)
    show "w \<noteq> []" if "lower w \<in> set forbidden_keywords" for w
    proof -
      have "lower w \<noteq> []" using that forbidden_keywords_shape by blast
      then show ?thesis by simp
    qed
  qed simp_all
  from this [of False s] have "word_scan False s \<longleftrightarrow>
     (\<exists>pre w post. s = pre @ w @ post \<and> lower w \<in> set forbidden_keywords \<and>
        (pre = [] \<or> \<not> is_word (last pre)) \<and> (post = [] \<or> \<not> is_word (hd post)))"
    unfolding not_at_start .
  then show ?thesis
    unfolding contains_forbidden_word_def occurs_as_word_def stands_as_word_def by blast
qed

lemma only_inside_identifiers_iff:
  "only_inside_identifiers s \<longleftrightarrow> \<not> contains_forbidden_word s"
  unfolding only_inside_identifiers_def contains_forbidden_word_def occurs_as_word_def
    stands_as_word_def
  by blast

lemma only_inside_identifiers_exact:
  "only_inside_identifiers t \<Longrightarrow> kw \<in> set forbidden_keywords \<Longrightarrow> \<not> stands_as_word kw t"
proof
  assume o: "only_inside_identifiers t" and k: "kw \<in> set forbidden_keywords"
    and "stands_as_word kw t"
  then have "occurs_as_word kw t"
    unfolding occurs_as_word_def using forbidden_keywords_lower by blast
  then have "contains_forbidden_word t"
    unfolding contains_forbidden_word_def using k by blast
  with o show False by (simp add: only_inside_identifiers_iff)
qed

subsection \<open>The prefix of a read query\<close>

lemma prefix_select_strip:
  "prefix (str ''select'') (strip s) \<longleftrightarrow> prefix (str ''select'') (lstrip s)"
  using select_shape by (intro prefix_strip_iff) simp_all

lemma lower_sanitized_no_leading_space:
  "lstrip (lower (sanitize_sql raw)) = lower (sanitize_sql raw)"
proof (rule lstrip_id)
  let ?u = "sanitize_sql raw"
  have "?u = [] \<or> \<not> is_space (hd ?u)"
    using strip_no_space_ends [of "remove_backticks (re_sub_fence raw)"]
    by (auto simp: sanitize_sql_def)
  then show "lower ?u = [] \<or> \<not> is_space (hd (lower ?u))"
    by (auto simp: hd_lower hd_lower_cp_space)
qed

lemma strip_lower_select_append:
  "strip (lower (str ''select'' @ rest)) = str ''select'' @ rstrip (lower rest)"
proof -
  have l: "lower (str ''select'' @ rest) = str ''select'' @ lower rest"
    by (simp add: lower_append lower_select)
  have ls: "lstrip (str ''select'' @ lower rest) = str ''select'' @ lower rest"
    using select_shape by (intro lstrip_id) simp
  have r: "rstrip (str ''select'' @ lower rest) = str ''select'' @ rstrip (lower rest)"
    using select_shape by (intro rstrip_append_keep) simp_all
  show ?thesis unfolding strip_def l ls r ..
qed

section \<open>Properties\<close>

text \<open>
  C1. Every text that contains a keyword of the denylist as a word of its own, in any
  casing, is refused: as \<open>ForbiddenKeyword\<close> when its lower-cased, trimmed form starts
  with \<^verbatim>\<open>select\<close> (so also when the keyword follows a valid read-only prefix, as in
  \<^verbatim>\<open>select * from t; drop table t\<close>), and as \<open>NotAReadQuery\<close> otherwise, since the test
  of the prefix comes first.
\<close>

theorem forbidden_word_rejected:
  "contains_forbidden_word sql \<Longrightarrow>
     validate_sql sql =
       (if prefix (str ''select'') (strip (lower sql)) then Inl ForbiddenKeyword
        else Inl NotAReadQuery)"
  by (simp add: validate_sql_def Let_def search_finds_forbidden_words)

theorem forbidden_word_rejected_witness:
  "contains_forbidden_word (str ''select * from t; DROP table t'') \<and>
   validate_sql (str ''select * from t; DROP table t'') = Inl ForbiddenKeyword"
proof -
  have "stands_as_word (str ''DROP'') (str ''select * from t; DROP table t'')"
    unfolding stands_as_word_def
    by (intro exI[of _ "str ''select * from t; ''"] exI[of _ "str '' table t''"])
      (simp add: str_def is_word_def)
  moreover have "lower (str ''DROP'') = str ''drop''" by code_simp
  ultimately have "occurs_as_word (str ''drop'') (str ''select * from t; DROP table t'')"
    unfolding occurs_as_word_def by blast
  then have h: "contains_forbidden_word (str ''select * from t; DROP table t'')"
    unfolding contains_forbidden_word_def forbidden_keywords_def by simp
  have p: "prefix (str ''select'') (strip (lower (str ''select * from t; DROP table t'')))"
    by code_simp
  show ?thesis
    using h p forbidden_word_rejected [OF h] by simp
qed

text \<open>
  C1 without the condition on the prefix fails: \<^verbatim>\<open>drop table t\<close> contains the keyword
  as a word of its own and is refused as \<open>NotAReadQuery\<close>, not as \<open>ForbiddenKeyword\<close>.
\<close>

theorem forbidden_word_without_select_counterexample:
  "contains_forbidden_word (str ''drop table t'') \<and>
   validate_sql (str ''drop table t'') = Inl NotAReadQuery \<and>
   validate_sql (str ''drop table t'') \<noteq> Inl ForbiddenKeyword"
proof -
  have "stands_as_word (str ''drop'') (str ''drop table t'')"
    unfolding stands_as_word_def
    by (intro exI[of _ "[]"] exI[of _ "str '' table t''"]) (simp add: str_def is_word_def)
  moreover have "lower (str ''drop'') = str ''drop''" by code_simp
  ultimately have "occurs_as_word (str ''drop'') (str ''drop table t'')"
    unfolding occurs_as_word_def by blast
  then have "contains_forbidden_word (str ''drop table t'')"
    unfolding contains_forbidden_word_def forbidden_keywords_def by simp
  moreover have "validate_sql (str ''drop table t'') = Inl NotAReadQuery" by code_simp
  ultimately show ?thesis by simp
qed

text \<open>
  C2. A text whose lower-cased form, leading whitespace removed, does not start with
  \<^verbatim>\<open>select\<close> is refused as \<open>NotAReadQuery\<close>. Hence an accepted text starts with
  \<^verbatim>\<open>select\<close> in that form, and the statement \<^verbatim>\<open>generate_sql\<close> returns, which has no
  leading whitespace, starts with it up to casing.
\<close>

theorem validate_sql_requires_select:
  "(\<not> prefix (str ''select'') (lstrip (lower sql)) \<longrightarrow> validate_sql sql = Inl NotAReadQuery) \<and>
   (validate_sql sql = Inr () \<longrightarrow> prefix (str ''select'') (lstrip (lower sql))) \<and>
   (generate_sql raw_sql = Inr stmt \<longrightarrow> prefix (str ''select'') (lower stmt))"
proof (intro conjI impI)
  assume "\<not> prefix (str ''select'') (lstrip (lower sql))"
  then show "validate_sql sql = Inl NotAReadQuery"
    by (simp add: validate_sql_def Let_def prefix_select_strip)
next
  assume "validate_sql sql = Inr ()"
  then show "prefix (str ''select'') (lstrip (lower sql))"
    by (simp add: validate_sql_def Let_def prefix_select_strip split: if_splits)
next
  assume "generate_sql raw_sql = Inr stmt"
  then have s: "stmt = sanitize_sql raw_sql" and v: "validate_sql stmt = Inr ()"
    by (auto simp: generate_sql_def Let_def split: sum.splits)
  from v have "prefix (str ''select'') (lstrip (lower stmt))"
    by (simp add: validate_sql_def Let_def prefix_select_strip split: if_splits)
  then show "prefix (str ''select'') (lower stmt)"
    using s lower_sanitized_no_leading_space [of raw_sql] by simp
qed

theorem validate_sql_requires_select_witness:
  "\<not> prefix (str ''select'') (lstrip (lower (str '' show tables''))) \<and>
   validate_sql (str '' show tables'') = Inl NotAReadQuery \<and>
   validate_sql (str ''  SELECT 1'') = Inr () \<and>
   prefix (str ''select'') (lstrip (lower (str ''  SELECT 1''))) \<and>
   generate_sql (fence @ str ''sql  Select 1 '' @ fence) = Inr (str ''Select 1'') \<and>
   prefix (str ''select'') (lower (str ''Select 1''))"
proof -
  have h1: "\<not> prefix (str ''select'') (lstrip (lower (str '' show tables'')))" by code_simp
  have h2: "validate_sql (str ''  SELECT 1'') = Inr ()" by code_simp
  have h3: "generate_sql (fence @ str ''sql  Select 1 '' @ fence) = Inr (str ''Select 1'')"
    by code_simp
  show ?thesis
    using h1 h2 h3
      validate_sql_requires_select
        [of "str '' show tables''" "fence @ str ''sql  Select 1 '' @ fence" "str ''Select 1''"]
      validate_sql_requires_select
        [of "str ''  SELECT 1''" "fence @ str ''sql  Select 1 '' @ fence" "str ''Select 1''"]
    by simp
qed

text \<open>
  C3. The validation looks for the keywords in the lower-cased text. When there every
  occurrence of a keyword is part of a longer identifier, the validation does not fail
  with \<open>ForbiddenKeyword\<close>, and the text is accepted if it passes the test of the
  prefix. For a text without the letter U+0130 that is so whenever every occurrence of a
  keyword in the text itself, in any casing, is part of a longer identifier, as in
  \<^verbatim>\<open>select createdDate from t\<close>.
\<close>

theorem keyword_inside_identifier_passes:
  "only_inside_identifiers (lower sql) \<or>
   (Capital_I_dot \<notin> set sql \<and> only_inside_identifiers sql) \<Longrightarrow>
     validate_sql sql \<noteq> Inl ForbiddenKeyword \<and>
     (prefix (str ''select'') (strip (lower sql)) \<longrightarrow> validate_sql sql = Inr ())"
proof -
  assume h: "only_inside_identifiers (lower sql) \<or>
             (Capital_I_dot \<notin> set sql \<and> only_inside_identifiers sql)"
  have "\<not> re_search_forbidden (strip (lower sql))"
  proof
    assume f: "re_search_forbidden (strip (lower sql))"
    from h show False
    proof
      assume "only_inside_identifiers (lower sql)"
      then show False
        using f only_inside_identifiers_exact unfolding search_finds_words_of_lower by blast
    next
      assume "Capital_I_dot \<notin> set sql \<and> only_inside_identifiers sql"
      then show False
        using f search_finds_only_forbidden_words only_inside_identifiers_iff by blast
    qed
  qed
  then show ?thesis by (simp add: validate_sql_def Let_def)
qed

theorem keyword_inside_identifier_passes_witness:
  "Capital_I_dot \<notin> set (str ''select createdDate from t'') \<and>
   only_inside_identifiers (str ''select createdDate from t'') \<and>
   sublist (str ''create'') (lower (str ''select createdDate from t'')) \<and>
   validate_sql (str ''select createdDate from t'') = Inr ()"
proof -
  have i: "Capital_I_dot \<notin> set (str ''select createdDate from t'')"
    by (auto simp: str_def)
  have "\<not> word_scan False (str ''select createdDate from t'')" by code_simp
  then have h: "only_inside_identifiers (str ''select createdDate from t'')"
    by (simp add: only_inside_identifiers_iff word_scan_iff)
  have p: "prefix (str ''select'') (strip (lower (str ''select createdDate from t'')))"
    by code_simp
  have "lower (str ''select createdDate from t'')
          = str ''select '' @ str ''create'' @ str ''ddate from t''"
    by code_simp
  then have s: "sublist (str ''create'') (lower (str ''select createdDate from t''))"
    unfolding sublist_def by blast
  show ?thesis
    using i h p s keyword_inside_identifier_passes [of "str ''select createdDate from t''"]
    by simp
qed

text \<open>
  C3 for every text fails: in \<^verbatim>\<open>select Xdrop from t\<close> with the letter U+0130 for \<^verbatim>\<open>X\<close>,
  the keyword is part of a longer identifier. \<^verbatim>\<open>lower\<close> turns the letter into \<^verbatim>\<open>i\<close>
  and the combining dot U+0307, which is no word character, so the pattern finds
  \<^verbatim>\<open>drop\<close> behind a word boundary and the text is refused as \<open>ForbiddenKeyword\<close>.
\<close>

theorem keyword_behind_dotted_I_counterexample:
  "only_inside_identifiers (str ''select '' @ [Capital_I_dot] @ str ''drop from t'') \<and>
   validate_sql (str ''select '' @ [Capital_I_dot] @ str ''drop from t'') = Inl ForbiddenKeyword"
proof -
  have "\<not> word_scan False (str ''select '' @ [Capital_I_dot] @ str ''drop from t'')"
    by code_simp
  then have "only_inside_identifiers (str ''select '' @ [Capital_I_dot] @ str ''drop from t'')"
    by (simp add: only_inside_identifiers_iff word_scan_iff)
  moreover have
    "validate_sql (str ''select '' @ [Capital_I_dot] @ str ''drop from t'') = Inl ForbiddenKeyword"
    by code_simp
  ultimately show ?thesis by simp
qed

text \<open>
  C4. The gate returns a statement exactly when the sanitized answer passes the
  validation, and the statement is then the sanitized answer itself, in its own casing:
  the lower-cased text is used for the tests only.
\<close>

theorem generate_sql_returns_sanitized:
  "generate_sql raw_sql = Inr sql \<longleftrightarrow>
     sql = sanitize_sql raw_sql \<and> validate_sql (sanitize_sql raw_sql) = Inr ()"
  by (auto simp: generate_sql_def Let_def split: sum.splits)

theorem generate_sql_returns_sanitized_witness:
  "generate_sql (fence @ str ''SQL\<newline>SELECT Name FROM dbo.Employees WHERE Id = 7\<newline>'' @ fence)
     = Inr (str ''SELECT Name FROM dbo.Employees WHERE Id = 7'')"
proof -
  have "sanitize_sql (fence @ str ''SQL\<newline>SELECT Name FROM dbo.Employees WHERE Id = 7\<newline>'' @ fence)
          = str ''SELECT Name FROM dbo.Employees WHERE Id = 7''"
    by code_simp
  moreover have "validate_sql (str ''SELECT Name FROM dbo.Employees WHERE Id = 7'') = Inr ()"
    by code_simp
  ultimately show ?thesis
    using generate_sql_returns_sanitized
      [of "fence @ str ''SQL\<newline>SELECT Name FROM dbo.Employees WHERE Id = 7\<newline>'' @ fence"
          "str ''SELECT Name FROM dbo.Employees WHERE Id = 7''"]
    by simp
qed

text \<open>
  C5. The statement \<^verbatim>\<open>UPDATE dbo.Employees SET Salary = 0\<close> is refused as not being a
  read query, although the denylist pattern matches it too: the test of the prefix
  comes first.
\<close>

theorem update_is_not_a_read_query:
  "validate_sql (str ''UPDATE dbo.Employees SET Salary = 0'') = Inl NotAReadQuery \<and>
   re_search_forbidden (strip (lower (str ''UPDATE dbo.Employees SET Salary = 0'')))"
  by code_simp




text \<open>C7. Sanitizing twice gives what sanitizing once gives.\<close>

theorem sanitize_sql_idempotent: "sanitize_sql (sanitize_sql sql) = sanitize_sql sql"
  by (rule sanitize_idem)

text \<open>
  C8. The fenced answer, three backticks and \<^verbatim>\<open>sql\<close>, a newline, the query, a newline and
  three backticks, is sanitized to the query alone, and the query passes the validation.
\<close>

theorem fenced_select_scenario:
  "sanitize_sql
     (fence @ str ''sql\<newline>SELECT Name FROM dbo.Employees\<newline>'' @ fence)
     = str ''SELECT Name FROM dbo.Employees'' \<and>
   validate_sql (str ''SELECT Name FROM dbo.Employees'') = Inr ()"
  by code_simp

text \<open>
  C9. \<^verbatim>\<open>execute_sql\<close> validates its argument first: on a statement the validation
  refuses it returns that error, and the database sees nothing (the log is unchanged: no
  connection, no execution, no rows).
\<close>

theorem execute_sql_validates_first:
  "validate_sql sql = Inl e \<Longrightarrow> execute_sql db sql log = (Inl e, log)"
  by (simp add: execute_sql_def)

theorem execute_sql_validates_first_witness:
  "validate_sql (str ''select * from t; drop table t'') = Inl ForbiddenKeyword \<and>
   execute_sql \<lparr>reachable = True, run_query = (\<lambda>_. Some ([''n''], [[1::nat]]))\<rparr>
     (str ''select * from t; drop table t'') [] = (Inl ForbiddenKeyword, [])"
proof -
  have h: "validate_sql (str ''select * from t; drop table t'') = Inl ForbiddenKeyword"
    by code_simp
  show ?thesis
    using h execute_sql_validates_first [OF h] by simp
qed

text \<open>
  C10. The test for a read query is a test of the prefix: a text whose lower-cased,
  trimmed form starts with the six characters \<^verbatim>\<open>select\<close> passes it whatever follows,
  also a word character, as in \<^verbatim>\<open>selection * from t\<close>, which is accepted.
\<close>

theorem select_prefix_is_not_a_token:
  "(prefix (str ''select'') (strip (lower sql)) \<longrightarrow> validate_sql sql \<noteq> Inl NotAReadQuery) \<and>
   validate_sql (str ''select'' @ rest) \<noteq> Inl NotAReadQuery \<and>
   validate_sql (str ''selection * from t'') = Inr ()"
proof (intro conjI impI)
  assume "prefix (str ''select'') (strip (lower sql))"
  then show "validate_sql sql \<noteq> Inl NotAReadQuery"
    by (simp add: validate_sql_def Let_def)
next
  have "prefix (str ''select'') (strip (lower (str ''select'' @ rest)))"
    by (simp only: strip_lower_select_append prefixI)
  then show "validate_sql (str ''select'' @ rest) \<noteq> Inl NotAReadQuery"
    by (simp add: validate_sql_def Let_def)
next
  show "validate_sql (str ''selection * from t'') = Inr ()" by code_simp
qed

theorem select_prefix_is_not_a_token_witness:
  "prefix (str ''select'') (strip (lower (str ''  SelectedRows''))) \<and>
   validate_sql (str ''  SelectedRows'') \<noteq> Inl NotAReadQuery"
proof -
  have h: "prefix (str ''select'') (strip (lower (str ''  SelectedRows'')))" by code_simp
  show ?thesis
    using h select_prefix_is_not_a_token [of "str ''  SelectedRows''" "[]"] by simp
qed

end
